theory Spec2Isabelle
  imports Main "HOL-Library.Word"
begin

unbundle bit_operations_syntax

text \<open>
  A model of driver/razercommon.c of the openrazer kernel driver: the checksum of a report,
  the two functions that exchange reports with a device over USB control transfers, and
  the registry of key translations per device, followed by what is proved of them.
\<close>

section \<open>Machine types of razercommon.c\<close>

type_synonym u8 = "8 word"
type_synonym u16 = "16 word"
type_synonym c_int = "32 word"

text \<open>
  \<^verbatim>\<open>size_t\<close> values (buffer lengths, entry counts, loop offsets) are natural numbers:
  every one of them is bounded by the length of a buffer or of an array that is in memory,
  and the code only divides them, takes remainders and counts upwards to such a bound.

  Functions, parameters and locals keep their names in the source, except where the name
  is taken in Isabelle: the parameter \<^verbatim>\<open>id\<close> is \<open>did\<close>, the locals \<^verbatim>\<open>size\<close> and \<^verbatim>\<open>value\<close>
  are \<open>sz\<close> and \<open>val\<close>.
\<close>

section \<open>Report codec\<close>

text \<open>
  Modelled from the spec: the declaration of \<^verbatim>\<open>struct razer_report\<close> and the macro
  \<^verbatim>\<open>RAZER_USB_REPORT_LEN\<close> live in razercommon.h, which is not part of the sources at
  hand. The spec fixes the frame at 90 bytes. The functions below only ever look at a report
  through \<^verbatim>\<open>unsigned char *\<close>, \<^verbatim>\<open>memcpy\<close> or \<^verbatim>\<open>kmemdup\<close>, so a report is the list of its bytes.
\<close>

type_synonym razer_report = "u8 list"

definition RAZER_USB_REPORT_LEN :: nat where
  "RAZER_USB_REPORT_LEN = 90"

definition sizeof_razer_report :: nat where
  "sizeof_razer_report = 90"

text \<open>
  \<^verbatim>\<open>for(i = 2; i < 88; i++) { crc ^= _report[i]; }\<close> with the loop variable and the
  accumulator as arguments.
\<close>

function crc_loop :: "razer_report \<Rightarrow> nat \<Rightarrow> u8 \<Rightarrow> u8" where
  "crc_loop report i crc =
     (if i < 88 then crc_loop report (i + 1) (crc XOR report ! i) else crc)"
  by pat_completeness auto
termination
  by (relation "measure (\<lambda>(report, i, crc). 88 - i)") auto

declare crc_loop.simps [simp del]

definition razer_calculate_crc :: "razer_report \<Rightarrow> u8" where
  "razer_calculate_crc report = crc_loop report 2 0"

text \<open>
  The checksum in the words of the spec: the XOR-fold of the bytes at offsets 2 to 87
  inclusive.
\<close>

definition xor_fold :: "u8 list \<Rightarrow> u8" where
  "xor_fold bs = foldr (XOR) bs 0"

definition checksum_window :: "razer_report \<Rightarrow> u8 list" where
  "checksum_window report = take 86 (drop 2 report)"

section \<open>Translation registry\<close>

abbreviation (input) sizeof_u8 :: nat where "sizeof_u8 \<equiv> 1"
abbreviation (input) sizeof_u16 :: nat where "sizeof_u16 \<equiv> 2"

text \<open>
  Modelled from the spec: \<^verbatim>\<open>struct razer_key_translation\<close> and
  \<^verbatim>\<open>struct razer_device_translations\<close> are declared in razercommon.h, which is not part
  of the sources at hand. The spec gives a key translation the fields \<^verbatim>\<open>from\<close> (u16),
  \<^verbatim>\<open>to\<close> (u16) and \<^verbatim>\<open>flags\<close> (u8), in this order, and a device set an \<^verbatim>\<open>id\<close> (u16) and
  its entries. The field names carry a prefix where the source's name is reserved in
  Isabelle.

  The \<^verbatim>\<open>length\<close> field of a device set is the length of the list \<open>dev_translations\<close>:
  \<^verbatim>\<open>razer_alloc_translations\<close> is the only writer of either, and writes both.
\<close>

record razer_key_translation =
  tr_from :: u16
  tr_to :: u16
  tr_flags :: u8

record razer_device_translations =
  dev_id :: u16
  dev_translations :: "razer_key_translation list"

text \<open>
  The registry is the list hanging off the head node, in list order (\<^verbatim>\<open>list_add\<close> inserts
  right after the head, so the newest set comes first), together with the number of heap
  blocks obtained from \<^verbatim>\<open>kzalloc\<close> and not yet handed to \<^verbatim>\<open>kfree\<close>. A pointer to a set that
  is linked into the list is the position of the set in the list. The source does not check
  what \<^verbatim>\<open>kzalloc\<close> returns; the model covers the runs in which it returns memory.
\<close>

record registry =
  devices :: "razer_device_translations list"
  live_blocks :: nat

definition razer_init_translations :: "registry \<Rightarrow> registry" where
  "razer_init_translations st = st\<lparr>devices := []\<rparr>"

fun razer_get_device :: "razer_device_translations list \<Rightarrow> u16 \<Rightarrow> nat option" where
  "razer_get_device [] did = None"
| "razer_get_device (ptr # rest) did =
     (if dev_id ptr = did then Some 0 else map_option Suc (razer_get_device rest did))"

text \<open>\<^verbatim>\<open>for(i = 0; i < length; i++) kfree(translations[i]);\<close> and then the array itself.\<close>

function free_loop :: "nat \<Rightarrow> nat \<Rightarrow> nat \<Rightarrow> nat" where
  "free_loop i len live = (if i < len then free_loop (i + 1) len (live - 1) else live)"
  by pat_completeness auto
termination
  by (relation "measure (\<lambda>(i, len, live). len - i)") auto

declare free_loop.simps [simp del]

definition razer_free_translations :: "razer_device_translations \<Rightarrow> nat \<Rightarrow> nat" where
  "razer_free_translations it live = free_loop 0 (length (dev_translations it)) live - 1"

text \<open>
  \<^verbatim>\<open>kzalloc\<close> returns zeroed memory. The array of pointers is one block; the loop
  \<^verbatim>\<open>for (i = 0; i < length; i++) translations[i] = kzalloc(...)\<close> fills its slots from the
  front, so the list built so far is the filled prefix.
\<close>

definition zeroed_key_translation :: razer_key_translation where
  "zeroed_key_translation = \<lparr>tr_from = 0, tr_to = 0, tr_flags = 0\<rparr>"

function alloc_loop ::
  "nat \<Rightarrow> nat \<Rightarrow> razer_key_translation list \<Rightarrow> nat \<Rightarrow> razer_key_translation list \<times> nat" where
  "alloc_loop i len ts live =
     (if i < len then alloc_loop (i + 1) len (ts @ [zeroed_key_translation]) (live + 1)
      else (ts, live))"
  by pat_completeness auto
termination
  by (relation "measure (\<lambda>(i, len, ts, live). len - i)") auto

declare alloc_loop.simps [simp del]

definition razer_alloc_translations ::
  "razer_device_translations \<Rightarrow> nat \<Rightarrow> nat \<Rightarrow> razer_device_translations \<times> nat" where
  "razer_alloc_translations it len live =
     (let (ts, live') = alloc_loop 0 len [] (live + 1)
      in (it\<lparr>dev_translations := ts\<rparr>, live'))"

text \<open>
  \<^verbatim>\<open>memcpy(entry, buf + offset * bindingSize, bindingSize)\<close> stores four bytes over the
  first two fields of the entry, and \<^verbatim>\<open>memcpy(buf + offset * bindingSize, entry, bindingSize)\<close>
  reads them back. A u16 lies in memory low byte first (the byte order of the machines the
  driver's own example \<^verbatim>\<open>\x02\x00\x1E\x00\<close> for key 2 is written for).
\<close>

definition u16_of_bytes :: "u8 \<Rightarrow> u8 \<Rightarrow> u16" where
  "u16_of_bytes lo hi = ucast lo OR push_bit 8 (ucast hi)"

definition u16_lo :: "u16 \<Rightarrow> u8" where
  "u16_lo w = ucast w"

definition u16_hi :: "u16 \<Rightarrow> u8" where
  "u16_hi w = ucast (drop_bit 8 w)"

definition memcpy_to_entry :: "razer_key_translation \<Rightarrow> u8 list \<Rightarrow> nat \<Rightarrow> razer_key_translation" where
  "memcpy_to_entry t buf pos =
     t\<lparr>tr_from := u16_of_bytes (buf ! pos) (buf ! (pos + 1)),
       tr_to := u16_of_bytes (buf ! (pos + 2)) (buf ! (pos + 3))\<rparr>"

text \<open>
  A buffer the code writes to through a bare \<^verbatim>\<open>char *\<close> is the memory from that address on,
  indexed by byte offset.
\<close>

type_synonym out_buffer = "nat \<Rightarrow> u8"

definition memcpy_from_entry :: "out_buffer \<Rightarrow> nat \<Rightarrow> razer_key_translation \<Rightarrow> out_buffer" where
  "memcpy_from_entry buf pos t =
     buf(pos := u16_lo (tr_from t), pos + 1 := u16_hi (tr_from t),
         pos + 2 := u16_lo (tr_to t), pos + 3 := u16_hi (tr_to t))"

text \<open>
  The loop that stores the bindings:
  \<^verbatim>\<open>for (offset = 0; offset < bindingsCount; offset++) { memcpy(...); it->translations[offset]->flags = 0; }\<close>
\<close>

function set_loop ::
  "u8 list \<Rightarrow> nat \<Rightarrow> nat \<Rightarrow> nat \<Rightarrow> razer_key_translation list \<Rightarrow> razer_key_translation list" where
  "set_loop buf bindingSize bindingsCount offset ts =
     (if offset < bindingsCount
      then set_loop buf bindingSize bindingsCount (offset + 1)
             (ts[offset := (memcpy_to_entry (ts ! offset) buf (offset * bindingSize))\<lparr>tr_flags := 0\<rparr>])
      else ts)"
  by pat_completeness auto
termination
  by (relation "measure (\<lambda>(buf, bindingSize, bindingsCount, offset, ts). bindingsCount - offset)") auto

declare set_loop.simps [simp del]

definition list_del :: "nat \<Rightarrow> 'a list \<Rightarrow> 'a list" where
  "list_del i xs = take i xs @ drop (Suc i) xs"

text \<open>
  \<^verbatim>\<open>razer_set_translations\<close>. The result is \<open>None\<close> where the source would dereference
  a null \<^verbatim>\<open>it\<close> in the final loop; otherwise the returned u8 and the registry afterwards.
  The calls of \<^verbatim>\<open>razer_count_translations\<close> only feed \<^verbatim>\<open>printk\<close> and are left out.
\<close>

definition razer_set_translations ::
  "registry \<Rightarrow> u16 \<Rightarrow> u8 list \<Rightarrow> (u8 \<times> registry) option" where
  "razer_set_translations st did buf =
     (let count = length buf;
          bindingSize = sizeof_u16 * 2;
          bindingsCount = count div bindingSize
      in
      case (if count = sizeof_u8 then razer_get_device (devices st) did else None) of
        Some it \<Rightarrow>
          Some (1, \<lparr>devices = list_del it (devices st),
                    live_blocks = razer_free_translations (devices st ! it) (live_blocks st) - 1\<rparr>)
      | None \<Rightarrow>
          (if count mod sizeof_u16 \<noteq> 0 then Some (2, st)
           else
             let st1 =
               (case razer_get_device (devices st) did of
                  None \<Rightarrow>
                    (let (it, live) =
                           razer_alloc_translations \<lparr>dev_id = did, dev_translations = []\<rparr>
                             bindingsCount (live_blocks st + 1)
                     in \<lparr>devices = it # devices st, live_blocks = live\<rparr>)
                | Some _ \<Rightarrow> st)
             in
             (case razer_get_device (devices st1) did of
                None \<Rightarrow> if 0 < bindingsCount then None else Some (0, st1)
              | Some it \<Rightarrow>
                  let st2 =
                    (if length (dev_translations (devices st1 ! it)) \<noteq> bindingsCount
                     then
                       (let live = razer_free_translations (devices st1 ! it) (live_blocks st1);
                            (it', live') =
                              razer_alloc_translations (devices st1 ! it) bindingsCount live
                        in \<lparr>devices = (devices st1)[it := it'], live_blocks = live'\<rparr>)
                     else st1);
                    entry = devices st2 ! it
                  in
                  Some (0, st2\<lparr>devices := (devices st2)
                              [it := entry\<lparr>dev_translations :=
                                 set_loop buf bindingSize bindingsCount 0
                                   (dev_translations entry)\<rparr>]\<rparr>))))"

text \<open>
  \<^verbatim>\<open>razer_get_translations\<close> returns the size and the buffer as written. The loop is
  \<^verbatim>\<open>for (offset = 0; offset < device->length; offset++) { memcpy(...); size += bindingSize; }\<close>;
  \<^verbatim>\<open>strcpy(buf, "\0")\<close> copies the empty string, that is its terminating zero byte.
\<close>

function get_loop ::
  "razer_key_translation list \<Rightarrow> nat \<Rightarrow> nat \<Rightarrow> out_buffer \<Rightarrow> nat \<Rightarrow> nat \<times> out_buffer" where
  "get_loop ts bindingSize offset buf sz =
     (if offset < length ts
      then get_loop ts bindingSize (offset + 1)
             (memcpy_from_entry buf (offset * bindingSize) (ts ! offset)) (sz + bindingSize)
      else (sz, buf))"
  by pat_completeness auto
termination
  by (relation "measure (\<lambda>(ts, bindingSize, offset, buf, sz). length ts - offset)") auto

declare get_loop.simps [simp del]

definition razer_get_translations :: "registry \<Rightarrow> u16 \<Rightarrow> out_buffer \<Rightarrow> nat \<times> out_buffer" where
  "razer_get_translations st did buf =
     (let bindingSize = sizeof_u16 * 2
      in case razer_get_device (devices st) did of
           Some device \<Rightarrow> get_loop (dev_translations (devices st ! device)) bindingSize 0 buf 0
         | None \<Rightarrow> (1, buf(0 := 0)))"

text \<open>
  \<^verbatim>\<open>razer_get_translation\<close> returns a pointer into the array of the device's set, or
  \<^verbatim>\<open>NULL\<close>: here the position of the entry in \<open>dev_translations\<close> of the set, or \<open>None\<close>.
\<close>

function translation_loop :: "razer_key_translation list \<Rightarrow> u16 \<Rightarrow> nat \<Rightarrow> nat option" where
  "translation_loop ts key i =
     (if i < length ts
      then (if tr_from (ts ! i) = key then Some i else translation_loop ts key (i + 1))
      else None)"
  by pat_completeness auto
termination
  by (relation "measure (\<lambda>(ts, key, i). length ts - i)") auto

declare translation_loop.simps [simp del]

definition razer_get_translation :: "registry \<Rightarrow> u16 \<Rightarrow> u16 \<Rightarrow> nat option" where
  "razer_get_translation st did key =
     (case razer_get_device (devices st) did of
        Some device \<Rightarrow> translation_loop (dev_translations (devices st ! device)) key 0
      | None \<Rightarrow> None)"

text \<open>
  A sequence of writes to the registry, each an id and a buffer, run from a registry that
  \<^verbatim>\<open>razer_init_translations\<close> has just initialised.
\<close>

fun set_all :: "registry \<Rightarrow> (u16 \<times> u8 list) list \<Rightarrow> registry option" where
  "set_all st [] = Some st"
| "set_all st ((did, buf) # calls) =
     (case razer_set_translations st did buf of
        None \<Rightarrow> None
      | Some (r, st') \<Rightarrow> set_all st' calls)"

text \<open>
  The k-th binding of a write buffer in the words of the spec: two u16 values back to back,
  \<^verbatim>\<open>from\<close> then \<^verbatim>\<open>to\<close>, with \<^verbatim>\<open>flags\<close> 0. And the four bytes an entry shows to a read.
\<close>

definition binding_at :: "u8 list \<Rightarrow> nat \<Rightarrow> razer_key_translation" where
  "binding_at buf k =
     \<lparr>tr_from = u16_of_bytes (buf ! (4 * k)) (buf ! (4 * k + 1)),
      tr_to = u16_of_bytes (buf ! (4 * k + 2)) (buf ! (4 * k + 3)),
      tr_flags = 0\<rparr>"

definition entry_bytes :: "razer_key_translation \<Rightarrow> u8 list" where
  "entry_bytes t = [u16_lo (tr_from t), u16_hi (tr_from t), u16_lo (tr_to t), u16_hi (tr_to t)]"

text \<open>The registry right after \<^verbatim>\<open>razer_init_translations\<close>, with nothing allocated.\<close>

definition fresh_registry :: registry where
  "fresh_registry = razer_init_translations \<lparr>devices = [], live_blocks = 0\<rparr>"

text \<open>
  Registries used to exercise the statements: device 7 bound with one entry, and device 7
  bound with three entries of which the first two remap the same key.
\<close>

definition bound_registry :: registry where
  "bound_registry =
     \<lparr>devices = [\<lparr>dev_id = 7,
                   dev_translations = [\<lparr>tr_from = 2, tr_to = 0x1E, tr_flags = 0\<rparr>]\<rparr>],
      live_blocks = 3\<rparr>"

definition duplicate_registry :: registry where
  "duplicate_registry =
     \<lparr>devices = [\<lparr>dev_id = 7,
                   dev_translations = [\<lparr>tr_from = 2, tr_to = 0x1E, tr_flags = 0\<rparr>,
                                       \<lparr>tr_from = 2, tr_to = 0x30, tr_flags = 0\<rparr>,
                                       \<lparr>tr_from = 3, tr_to = 0x31, tr_flags = 0\<rparr>]\<rparr>],
      live_blocks = 5\<rparr>"

text \<open>A sequence of writes: bind 7, bind 8, delete 7, and a rejected write for 8.\<close>

definition example_calls :: "(u16 \<times> u8 list) list" where
  "example_calls = [(7, [2, 0, 0x1E, 0]), (8, [1, 2, 3, 4, 5, 6, 7, 8]), (7, [0]), (8, [9, 9, 9])]"

section \<open>Transport adapter\<close>

type_synonym uint = "32 word"
type_synonym ulong = "64 word"

text \<open>
  The kernel around the two transport functions. A control transfer is recorded with the
  arguments the code passes to \<^verbatim>\<open>usb_control_msg\<close>; the constants are those of the Linux
  headers, as the source's own comments give them (\<^verbatim>\<open>HID_REQ_SET_REPORT\<close> 0x09,
  \<^verbatim>\<open>HID_REQ_GET_REPORT\<close> 0x01, the request types 0x21 and 0xA1), and the error numbers
  \<^verbatim>\<open>ENOMEM\<close> 12 and \<^verbatim>\<open>EIO\<close> 5.
\<close>

record usb_control_request =
  rcv_pipe :: bool
  bRequest :: uint
  bmRequestType :: uint
  wValue :: uint
  wIndex :: uint
  buffer_before :: "u8 list"
  wLength :: uint

datatype kernel_call =
  Usb_Control_Msg usb_control_request
| Usleep_Range ulong ulong

text \<open>
  What the code cannot decide is the environment's choice: whether the n-th request for
  memory is granted, and what a control transfer returns (the \<^verbatim>\<open>int\<close> result and the bytes
  the host controller stored at the start of the data buffer), given everything that was
  sent and awaited before.
\<close>

record kernel_env =
  kmalloc_ok :: "nat \<Rightarrow> bool"
  usb_reply :: "kernel_call list \<Rightarrow> usb_control_request \<Rightarrow> c_int \<times> u8 list"

record kernel_state =
  k_requests :: nat
  k_live :: nat
  k_log :: "kernel_call list"

definition HID_REQ_SET_REPORT :: uint where "HID_REQ_SET_REPORT = 0x09"
definition HID_REQ_GET_REPORT :: uint where "HID_REQ_GET_REPORT = 0x01"
definition USB_CLASS_INTERFACE_OUT :: uint where "USB_CLASS_INTERFACE_OUT = 0x21"
definition USB_CLASS_INTERFACE_IN :: uint where "USB_CLASS_INTERFACE_IN = 0xA1"
definition ENOMEM :: c_int where "ENOMEM = 12"
definition EIO :: c_int where "EIO = 5"

text \<open>\<^verbatim>\<open>kmemdup\<close> and \<^verbatim>\<open>kzalloc\<close>: a block or \<^verbatim>\<open>NULL\<close>.\<close>

definition kmalloc :: "kernel_env \<Rightarrow> kernel_state \<Rightarrow> bool \<times> kernel_state" where
  "kmalloc env k =
     (if kmalloc_ok env (k_requests k)
      then (True, k\<lparr>k_requests := k_requests k + 1, k_live := k_live k + 1\<rparr>)
      else (False, k\<lparr>k_requests := k_requests k + 1\<rparr>))"

definition kfree :: "kernel_state \<Rightarrow> kernel_state" where
  "kfree k = k\<lparr>k_live := k_live k - 1\<rparr>"

definition usleep_range :: "ulong \<Rightarrow> ulong \<Rightarrow> kernel_state \<Rightarrow> kernel_state" where
  "usleep_range wait_min wait_max k = k\<lparr>k_log := k_log k @ [Usleep_Range wait_min wait_max]\<rparr>"

text \<open>
  Bytes that arrive are stored from the start of the buffer; what lies behind them stays.
\<close>

definition store_bytes :: "u8 list \<Rightarrow> u8 list \<Rightarrow> u8 list" where
  "store_bytes buf bytes = take (length buf) bytes @ drop (length bytes) buf"

definition usb_control_msg ::
  "kernel_env \<Rightarrow> usb_control_request \<Rightarrow> kernel_state \<Rightarrow> c_int \<times> u8 list \<times> kernel_state" where
  "usb_control_msg env req k =
     (let (len, bytes) = usb_reply env (k_log k) req
      in (len,
          if rcv_pipe req then store_bytes (buffer_before req) bytes else buffer_before req,
          k\<lparr>k_log := k_log k @ [Usb_Control_Msg req]\<rparr>))"

text \<open>
  \<^verbatim>\<open>razer_send_control_msg\<close>. \<^verbatim>\<open>len != size\<close> compares an \<^verbatim>\<open>int\<close> with a \<^verbatim>\<open>uint\<close>,
  that is the two 32-bit patterns; \<^verbatim>\<open>len < 0\<close> is the signed comparison.
\<close>

definition razer_send_control_msg ::
  "kernel_env \<Rightarrow> razer_report \<Rightarrow> uint \<Rightarrow> ulong \<Rightarrow> ulong \<Rightarrow> kernel_state \<Rightarrow> c_int \<times> kernel_state" where
  "razer_send_control_msg env data report_index wait_min wait_max k =
     (let request = HID_REQ_SET_REPORT;
          request_type = USB_CLASS_INTERFACE_OUT;
          val = 0x300;
          sz = RAZER_USB_REPORT_LEN;
          (buf_ok, k1) = kmalloc env k
      in
      if \<not> buf_ok then (- ENOMEM, k1)
      else
        let buf = take sz data;
            (len, buf', k2) =
              usb_control_msg env
                \<lparr>rcv_pipe = False, bRequest = request, bmRequestType = request_type,
                 wValue = val, wIndex = report_index, buffer_before = buf,
                 wLength = of_nat sz\<rparr> k1;
            k3 = usleep_range wait_min wait_max k2;
            k4 = kfree k3
        in ((if sint len < 0 then len else if len \<noteq> of_nat sz then - EIO else 0), k4))"

text \<open>
  \<^verbatim>\<open>razer_get_usb_response\<close> returns its \<^verbatim>\<open>int\<close> result, the caller's
  \<^verbatim>\<open>response_report\<close> as it is afterwards, and the kernel state.
\<close>

definition razer_get_usb_response ::
  "kernel_env \<Rightarrow> uint \<Rightarrow> razer_report \<Rightarrow> uint \<Rightarrow> razer_report \<Rightarrow> ulong \<Rightarrow> ulong \<Rightarrow>
   kernel_state \<Rightarrow> c_int \<times> razer_report \<times> kernel_state" where
  "razer_get_usb_response env report_index request_report response_index response_report
       wait_min wait_max k =
     (let request = HID_REQ_GET_REPORT;
          request_type = USB_CLASS_INTERFACE_IN;
          val = 0x300;
          sz = RAZER_USB_REPORT_LEN;
          (buf_ok, k1) = kmalloc env k
      in
      if \<not> buf_ok then (- ENOMEM, response_report, k1)
      else
        let buf = replicate sizeof_razer_report 0;
            (retval, k2) =
              razer_send_control_msg env request_report report_index wait_min wait_max k1;
            (len, buf', k3) =
              usb_control_msg env
                \<lparr>rcv_pipe = True, bRequest = request, bmRequestType = request_type,
                 wValue = val, wIndex = response_index, buffer_before = buf,
                 wLength = of_nat sz\<rparr> k2;
            response_report' = take sizeof_razer_report buf';
            k4 = kfree k3
        in ((if len \<noteq> 90 then 1 else 0), response_report', k4))"

text \<open>The two transfers the functions issue, for the statements about them.\<close>

definition set_report_request :: "razer_report \<Rightarrow> uint \<Rightarrow> usb_control_request" where
  "set_report_request data report_index =
     \<lparr>rcv_pipe = False, bRequest = 0x09, bmRequestType = 0x21, wValue = 0x300,
      wIndex = report_index, buffer_before = take 90 data, wLength = 90\<rparr>"

definition get_report_request :: "uint \<Rightarrow> usb_control_request" where
  "get_report_request response_index =
     \<lparr>rcv_pipe = True, bRequest = 0x01, bmRequestType = 0xA1, wValue = 0x300,
      wIndex = response_index, buffer_before = replicate 90 0, wLength = 90\<rparr>"

text \<open>
  A run used to exercise the transport statements: every request for memory is granted, a
  transfer to the device fails with -32, and a transfer from the device delivers a
  parameter that chooses between 90 bytes of 0x5A and a failure with nothing stored.
\<close>

definition example_env :: "bool \<Rightarrow> kernel_env" where
  "example_env answers =
     \<lparr>kmalloc_ok = (\<lambda>n. True),
      usb_reply = (\<lambda>log req. if rcv_pipe req
                     then (if answers then (90, replicate 90 0x5A) else (- 110, []))
                     else (- 32, []))\<rparr>"

definition example_kernel :: kernel_state where
  "example_kernel = \<lparr>k_requests = 0, k_live = 0, k_log = []\<rparr>"

section \<open>Checksum: proofs\<close>

lemma crc_loop_fold:
  "i \<le> 88 \<Longrightarrow> 88 \<le> length report \<Longrightarrow>
   crc_loop report i crc = crc XOR xor_fold (take (88 - i) (drop i report))"
proof (induction report i crc rule: crc_loop.induct)
  case (1 report i crc)
  show ?case
  proof (cases "i < 88")
    case False
    then show ?thesis
      by (subst crc_loop.simps) (simp add: xor_fold_def)
  next
    case True
    then have split: "88 - i = Suc (88 - (i + 1))" by simp
    from True "1.prems" have dr: "drop i report = report ! i # drop (i + 1) report"
      by (simp add: Cons_nth_drop_Suc)
    have "crc_loop report i crc = crc_loop report (i + 1) (crc XOR report ! i)"
      using True by (simp add: crc_loop.simps [of report i])
    also have "\<dots> = (crc XOR report ! i) XOR xor_fold (take (88 - (i + 1)) (drop (i + 1) report))"
      using "1.IH" [OF True] True "1.prems" by simp
    also have "\<dots> = crc XOR xor_fold (take (88 - i) (drop i report))"
      unfolding split dr by (simp add: xor_fold_def xor.assoc)
    finally show ?thesis .
  qed
qed

lemma razer_calculate_crc_window:
  "length report = 90 \<Longrightarrow> razer_calculate_crc report = xor_fold (checksum_window report)"
  by (simp add: razer_calculate_crc_def checksum_window_def crc_loop_fold)

lemma xor_fold_update:
  "i < length bs \<Longrightarrow> xor_fold (bs[i := v]) = xor_fold bs XOR (bs ! i XOR v)"
proof (induction bs arbitrary: i)
  case Nil
  then show ?case by simp
next
  case (Cons b bs)
  show ?case
  proof (cases i)
    case 0
    have "(v XOR foldr (XOR) bs 0) = (b XOR foldr (XOR) bs 0) XOR (b XOR v)"
      by (simp add: xor.assoc xor.left_commute xor.commute)
    with 0 show ?thesis by (simp add: xor_fold_def)
  next
    case (Suc j)
    with Cons.prems have "j < length bs" by simp
    from Cons.IH [OF this] Suc show ?thesis
      by (simp add: xor_fold_def xor.assoc)
  qed
qed

lemma xor_fixed_iff: "a XOR b = a \<longleftrightarrow> b = 0" for a b :: u8
proof
  assume "a XOR b = a"
  then have "a XOR (a XOR b) = a XOR a" by simp
  then show "b = 0" by (simp add: xor.assoc [symmetric])
qed simp

lemma xor_zero_iff: "a XOR b = 0 \<longleftrightarrow> a = b" for a b :: u8
proof
  assume "a XOR b = 0"
  then have "a XOR (a XOR b) = a XOR 0" by simp
  then show "a = b" by (simp add: xor.assoc [symmetric])
qed simp

lemma checksum_window_outside:
  "i < 2 \<or> 88 \<le> i \<Longrightarrow> checksum_window (report[i := v]) = checksum_window report"
  by (auto simp: checksum_window_def drop_update_swap)

lemma checksum_window_inside:
  "2 \<le> i \<Longrightarrow> i < 88 \<Longrightarrow> length report = 90 \<Longrightarrow>
   checksum_window (report[i := v]) = (checksum_window report)[i - 2 := v]"
  by (simp add: checksum_window_def drop_update_swap take_update_swap)

lemma checksum_window_nth:
  "2 \<le> i \<Longrightarrow> i < 88 \<Longrightarrow> length report = 90 \<Longrightarrow> checksum_window report ! (i - 2) = report ! i"
proof -
  assume i: "2 \<le> i" "i < 88" and len: "length report = 90"
  from i have e: "2 + (i - 2) = i" by simp
  from i len have "checksum_window report ! (i - 2) = report ! (2 + (i - 2))"
    unfolding checksum_window_def by (subst nth_take, simp, subst nth_drop, simp_all)
  then show ?thesis unfolding e .
qed

text \<open>
  Claim C4. For every 90-byte report, \<open>razer_calculate_crc\<close> is the XOR-fold of the bytes at
  offsets 2 to 87; writing any value to offset 0, 1, 88 or 89 leaves the checksum as it
  was, and replacing the byte at an offset from 2 to 87 by a different value changes the
  checksum. (Determinism is the fact that \<open>razer_calculate_crc\<close> is a function of the
  report's bytes alone.)
\<close>

theorem razer_calculate_crc_window_only:
  assumes "length report = 90"
  shows "razer_calculate_crc report = xor_fold (checksum_window report) \<and>
         (\<forall>v. \<forall>i \<in> {0, 1, 88, 89}.
            razer_calculate_crc (report[i := v]) = razer_calculate_crc report) \<and>
         (\<forall>i v. 2 \<le> i \<and> i \<le> 87 \<and> v \<noteq> report ! i \<longrightarrow>
            razer_calculate_crc (report[i := v]) \<noteq> razer_calculate_crc report)"
proof (intro conjI allI ballI impI)
  show "razer_calculate_crc report = xor_fold (checksum_window report)"
    using assms by (rule razer_calculate_crc_window)
next
  fix i :: nat and v :: u8
  assume "i \<in> {0, 1, 88, 89}"
  then have "i < 2 \<or> 88 \<le> i" by auto
  then show "razer_calculate_crc (report[i := v]) = razer_calculate_crc report"
    using assms by (simp add: razer_calculate_crc_window checksum_window_outside)
next
  fix i :: nat and v :: u8
  assume h: "2 \<le> i \<and> i \<le> 87 \<and> v \<noteq> report ! i"
  then have i: "2 \<le> i" "i \<le> 87" and v: "v \<noteq> report ! i" by simp_all
  from i have lt: "i < 88" by simp
  have len: "i - 2 < length (checksum_window report)"
    using i assms by (simp add: checksum_window_def)
  have "razer_calculate_crc (report[i := v])
        = xor_fold (checksum_window report) XOR (report ! i XOR v)"
    using assms i lt len
    by (simp add: razer_calculate_crc_window checksum_window_inside xor_fold_update
        checksum_window_nth)
  moreover have "report ! i XOR v \<noteq> 0"
    using v by (simp add: xor_zero_iff)
  ultimately show "razer_calculate_crc (report[i := v]) \<noteq> razer_calculate_crc report"
    using assms by (simp add: razer_calculate_crc_window xor_fixed_iff)
qed

theorem razer_calculate_crc_window_only_witness:
  "length (replicate 90 (1 :: u8)) = 90 \<and>
   razer_calculate_crc (replicate 90 1) = xor_fold (checksum_window (replicate 90 1)) \<and>
   razer_calculate_crc ((replicate 90 1)[89 := 7]) = razer_calculate_crc (replicate 90 1) \<and>
   razer_calculate_crc ((replicate 90 1)[5 := 7]) \<noteq> razer_calculate_crc (replicate 90 1)"
proof -
  let ?r = "replicate 90 (1 :: u8)"
  have len: "length ?r = 90" by simp
  note t = razer_calculate_crc_window_only [OF len]
  from t have a: "razer_calculate_crc ?r = xor_fold (checksum_window ?r)" by blast
  from t have "\<forall>i \<in> {0, 1, 88, 89}.
      razer_calculate_crc (?r[i := 7]) = razer_calculate_crc ?r" by blast
  then have b: "razer_calculate_crc (?r[89 := 7]) = razer_calculate_crc ?r" by simp
  from t have "2 \<le> (5::nat) \<and> (5::nat) \<le> 87 \<and> 7 \<noteq> ?r ! 5 \<longrightarrow>
      razer_calculate_crc (?r[5 := 7]) \<noteq> razer_calculate_crc ?r" by blast
  then have c: "razer_calculate_crc (?r[5 := 7]) \<noteq> razer_calculate_crc ?r" by simp
  from len a b c show ?thesis by blast
qed

section \<open>Transport adapter: proofs\<close>

lemma razer_send_control_msg_granted:
  assumes "kmalloc_ok env (k_requests k)"
    and "usb_reply env (k_log k) (set_report_request data report_index) = (len, bytes)"
  shows "razer_send_control_msg env data report_index wait_min wait_max k =
     ((if sint len < 0 then len else if len \<noteq> 90 then - EIO else 0),
      k\<lparr>k_requests := k_requests k + 1,
        k_log := k_log k @ [Usb_Control_Msg (set_report_request data report_index),
                            Usleep_Range wait_min wait_max]\<rparr>)"
  using assms
  by (simp add: razer_send_control_msg_def kmalloc_def usb_control_msg_def usleep_range_def
      kfree_def set_report_request_def RAZER_USB_REPORT_LEN_def HID_REQ_SET_REPORT_def
      USB_CLASS_INTERFACE_OUT_def)

lemma razer_send_control_msg_refused:
  assumes "\<not> kmalloc_ok env (k_requests k)"
  shows "razer_send_control_msg env data report_index wait_min wait_max k =
     (- ENOMEM, k\<lparr>k_requests := k_requests k + 1\<rparr>)"
  using assms by (simp add: razer_send_control_msg_def kmalloc_def)

lemma store_bytes_length: "length (store_bytes buf bytes) = length buf"
  by (simp add: store_bytes_def)

lemma razer_get_usb_response_granted:
  assumes "kmalloc_ok env (k_requests k)"
    and "razer_send_control_msg env request_report report_index wait_min wait_max
           (snd (kmalloc env k)) = (retval, k2)"
    and "usb_reply env (k_log k2) (get_report_request response_index) = (len, bytes)"
  shows "razer_get_usb_response env report_index request_report response_index response_report
           wait_min wait_max k =
         ((if len \<noteq> 90 then 1 else 0), store_bytes (replicate 90 0) bytes,
          k2\<lparr>k_log := k_log k2 @ [Usb_Control_Msg (get_report_request response_index)],
             k_live := k_live k2 - 1\<rparr>)"
  using assms
  by (simp add: razer_get_usb_response_def kmalloc_def usb_control_msg_def kfree_def
      get_report_request_def RAZER_USB_REPORT_LEN_def sizeof_razer_report_def
      HID_REQ_GET_REPORT_def USB_CLASS_INTERFACE_IN_def store_bytes_length Let_def)

lemma example_send:
  "razer_send_control_msg (example_env b) (replicate 90 1) 2 900 1000
     (snd (kmalloc (example_env b) example_kernel)) =
   (- 32, \<lparr>k_requests = 2, k_live = 1,
           k_log = [Usb_Control_Msg (set_report_request (replicate 90 1) 2),
                    Usleep_Range 900 1000]\<rparr>)"
  by (simp add: razer_send_control_msg_def kmalloc_def usb_control_msg_def usleep_range_def
      kfree_def set_report_request_def RAZER_USB_REPORT_LEN_def HID_REQ_SET_REPORT_def
      USB_CLASS_INTERFACE_OUT_def example_env_def example_kernel_def)

text \<open>
  Claim C9. \<open>razer_send_control_msg\<close> returns 0 exactly when the buffer was obtained and the
  transfer reports 90 bytes; a negative transfer status is returned as it is; a transfer of
  another non-negative length gives \<open>- EIO\<close>; and in every case as many blocks are live
  afterwards as before, so the transfer buffer has been released. (Without a buffer there is
  no transfer and the result is \<open>- ENOMEM\<close>.)
\<close>

theorem razer_send_control_msg_outcome:
  assumes "razer_send_control_msg env data report_index wait_min wait_max k = (ret, k')"
    and "usb_reply env (k_log k) (set_report_request data report_index) = (len, bytes)"
  shows "(ret = 0 \<longleftrightarrow> kmalloc_ok env (k_requests k) \<and> len = 90) \<and>
         (kmalloc_ok env (k_requests k) \<and> sint len < 0 \<longrightarrow> ret = len) \<and>
         (kmalloc_ok env (k_requests k) \<and> 0 \<le> sint len \<and> len \<noteq> 90 \<longrightarrow> ret = - EIO) \<and>
         (\<not> kmalloc_ok env (k_requests k) \<longrightarrow> ret = - ENOMEM \<and> k_log k' = k_log k) \<and>
         k_live k' = k_live k"
proof (cases "kmalloc_ok env (k_requests k)")
  case True
  from razer_send_control_msg_granted [OF True assms(2), of wait_min wait_max] assms(1)
  have ret: "ret = (if sint len < 0 then len else if len \<noteq> 90 then - EIO else 0)"
    and k': "k' = k\<lparr>k_requests := k_requests k + 1,
        k_log := k_log k @ [Usb_Control_Msg (set_report_request data report_index),
                            Usleep_Range wait_min wait_max]\<rparr>"
    by simp_all
  have "sint len < 0 \<Longrightarrow> len \<noteq> 0" by auto
  moreover have "- EIO \<noteq> (0 :: c_int)" by (simp add: EIO_def)
  ultimately show ?thesis using True ret k' by auto
next
  case False
  from razer_send_control_msg_refused [OF False, of data report_index wait_min wait_max] assms(1)
  have "ret = - ENOMEM" and "k' = k\<lparr>k_requests := k_requests k + 1\<rparr>" by simp_all
  moreover have "- ENOMEM \<noteq> (0 :: c_int)" by (simp add: ENOMEM_def)
  ultimately show ?thesis using False by simp
qed

theorem razer_send_control_msg_outcome_witness:
  "razer_send_control_msg (example_env True) (replicate 90 1) 2 900 1000
     (snd (kmalloc (example_env True) example_kernel)) =
   (- 32, \<lparr>k_requests = 2, k_live = 1,
           k_log = [Usb_Control_Msg (set_report_request (replicate 90 1) 2),
                    Usleep_Range 900 1000]\<rparr>) \<and>
   usb_reply (example_env True) (k_log (snd (kmalloc (example_env True) example_kernel)))
     (set_report_request (replicate 90 1) 2) = (- 32, []) \<and>
   kmalloc_ok (example_env True) (k_requests (snd (kmalloc (example_env True) example_kernel))) \<and>
   sint (- 32 :: c_int) < 0 \<and>
   k_live (snd (kmalloc (example_env True) example_kernel)) = 1"
proof -
  let ?k = "snd (kmalloc (example_env True) example_kernel)"
  have reply: "usb_reply (example_env True) (k_log ?k) (set_report_request (replicate 90 1) 2)
      = (- 32, [])"
    by (simp add: example_env_def set_report_request_def)
  have granted: "kmalloc_ok (example_env True) (k_requests ?k)"
    by (simp add: example_env_def)
  have neg: "sint (- 32 :: c_int) < 0" by simp
  from razer_send_control_msg_outcome [OF example_send reply] granted neg
  have "k_live ?k = 1" by simp
  with example_send reply granted neg show ?thesis by blast
qed

text \<open>
  Claim C8. Once \<open>razer_get_usb_response\<close> has its receive buffer, whatever
  \<open>razer_send_control_msg\<close> returned (\<open>retval\<close>), the get-report transfer is the next thing
  the kernel sees, the result is 1 exactly when that transfer returns something other than
  90 and 0 exactly when it returns 90, and on success the report handed back is the
  receive buffer as the transfer left it: no checksum is looked at.
\<close>

theorem razer_get_usb_response_reads_regardless:
  assumes "kmalloc_ok env (k_requests k)"
    and "razer_send_control_msg env request_report report_index wait_min wait_max
           (snd (kmalloc env k)) = (retval, k2)"
    and "usb_reply env (k_log k2) (get_report_request response_index) = (len, bytes)"
    and "razer_get_usb_response env report_index request_report response_index response_report
           wait_min wait_max k = (result, response_report', k')"
  shows "k_log k' = k_log k2 @ [Usb_Control_Msg (get_report_request response_index)] \<and>
         (result = 1 \<longleftrightarrow> len \<noteq> 90) \<and> (result = 0 \<longleftrightarrow> len = 90) \<and>
         (len = 90 \<longrightarrow> response_report' = store_bytes (replicate 90 0) bytes)"
  using razer_get_usb_response_granted [OF assms(1,2,3), of response_report] assms(4)
  by (simp split: if_splits)

theorem razer_get_usb_response_reads_regardless_witness:
  "kmalloc_ok (example_env True) (k_requests example_kernel) \<and>
   fst (razer_send_control_msg (example_env True) (replicate 90 1) 2 900 1000
         (snd (kmalloc (example_env True) example_kernel))) = - 32 \<and>
   razer_get_usb_response (example_env True) 2 (replicate 90 1) 2 (replicate 90 7) 900 1000
     example_kernel =
   (0, replicate 90 0x5A,
    \<lparr>k_requests = 2, k_live = 0,
     k_log = [Usb_Control_Msg (set_report_request (replicate 90 1) 2), Usleep_Range 900 1000,
              Usb_Control_Msg (get_report_request 2)]\<rparr>) \<and>
   razer_calculate_crc (replicate 90 0x5A) \<noteq> replicate 90 0x5A ! 88"
proof -
  let ?env = "example_env True"
  let ?k2 = "\<lparr>k_requests = 2, k_live = 1,
           k_log = [Usb_Control_Msg (set_report_request (replicate 90 1) 2),
                    Usleep_Range 900 1000]\<rparr>"
  have granted: "kmalloc_ok ?env (k_requests example_kernel)"
    by (simp add: example_env_def)
  have reply: "usb_reply ?env (k_log ?k2) (get_report_request 2) = (90, replicate 90 0x5A)"
    by (simp add: example_env_def get_report_request_def)
  obtain result response k' where run:
    "razer_get_usb_response ?env 2 (replicate 90 1) 2 (replicate 90 7) 900 1000 example_kernel
       = (result, response, k')"
    by (metis prod_cases3)
  from razer_get_usb_response_reads_regardless [OF granted example_send reply run]
  have log: "k_log k' = k_log ?k2 @ [Usb_Control_Msg (get_report_request 2)]"
    and res: "result = 0" and resp: "response = store_bytes (replicate 90 0) (replicate 90 0x5A)"
    by simp_all
  have "razer_get_usb_response ?env 2 (replicate 90 1) 2 (replicate 90 7) 900 1000
      example_kernel = (0, replicate 90 0x5A,
    \<lparr>k_requests = 2, k_live = 0,
     k_log = [Usb_Control_Msg (set_report_request (replicate 90 1) 2), Usleep_Range 900 1000,
              Usb_Control_Msg (get_report_request 2)]\<rparr>)"
    using razer_get_usb_response_granted [OF granted example_send reply, of "replicate 90 7"]
    by (simp add: store_bytes_def)
  moreover have "razer_calculate_crc (replicate 90 0x5A) \<noteq> replicate 90 0x5A ! 88"
    by code_simp
  ultimately show ?thesis using granted example_send log res by simp
qed

text \<open>
  Claim C10. Once \<open>razer_get_usb_response\<close> has its receive buffer and the get-report
  transfer returns something other than 90, the result is 1 and the caller's report has
  nevertheless been replaced by the receive buffer: zeros with the bytes stored by the
  transfer on top, whatever the report held before. A transfer that stored nothing leaves the
  caller with 90 zero bytes.
\<close>

theorem razer_get_usb_response_overwrites_on_error:
  assumes "kmalloc_ok env (k_requests k)"
    and "razer_send_control_msg env request_report report_index wait_min wait_max
           (snd (kmalloc env k)) = (retval, k2)"
    and "usb_reply env (k_log k2) (get_report_request response_index) = (len, bytes)"
    and "len \<noteq> 90"
    and "razer_get_usb_response env report_index request_report response_index response_report
           wait_min wait_max k = (result, response_report', k')"
  shows "result = 1 \<and> response_report' = store_bytes (replicate 90 0) bytes \<and>
         (bytes = [] \<longrightarrow> response_report' = replicate 90 0)"
  using razer_get_usb_response_granted [OF assms(1,2,3), of response_report] assms(4,5)
  by (auto simp: store_bytes_def)

theorem razer_get_usb_response_overwrites_on_error_witness:
  "kmalloc_ok (example_env False) (k_requests example_kernel) \<and>
   (\<exists>k'. razer_get_usb_response (example_env False) 2 (replicate 90 1) 2 (replicate 90 7)
            900 1000 example_kernel = (1, replicate 90 0, k')) \<and>
   replicate 90 (0 :: u8) \<noteq> replicate 90 7"
proof -
  let ?env = "example_env False"
  let ?k2 = "\<lparr>k_requests = 2, k_live = 1,
           k_log = [Usb_Control_Msg (set_report_request (replicate 90 1) 2),
                    Usleep_Range 900 1000]\<rparr>"
  have granted: "kmalloc_ok ?env (k_requests example_kernel)"
    by (simp add: example_env_def)
  have reply: "usb_reply ?env (k_log ?k2) (get_report_request 2) = (- 110, [])"
    by (simp add: example_env_def get_report_request_def)
  have len: "(- 110 :: c_int) \<noteq> 90" by simp
  obtain result response k' where run:
    "razer_get_usb_response ?env 2 (replicate 90 1) 2 (replicate 90 7) 900 1000 example_kernel
       = (result, response, k')"
    by (metis prod_cases3)
  from razer_get_usb_response_overwrites_on_error [OF granted example_send reply len run]
  have "result = 1" and "response = replicate 90 0" by (simp_all add: store_bytes_def)
  with run have "\<exists>k'. razer_get_usb_response ?env 2 (replicate 90 1) 2 (replicate 90 7)
            900 1000 example_kernel = (1, replicate 90 0, k')" by blast
  moreover have "replicate 90 (0 :: u8) \<noteq> replicate 90 7"
    by simp
  ultimately show ?thesis using granted by blast
qed

section \<open>Translation registry: proofs\<close>

lemma u16_lo_of_bytes: "u16_lo (u16_of_bytes lo hi) = lo"
  unfolding u16_lo_def u16_of_bytes_def
  by (rule bit_word_eqI) (auto simp: bit_simps)

lemma u16_hi_of_bytes: "u16_hi (u16_of_bytes lo hi) = hi"
  unfolding u16_hi_def u16_of_bytes_def
  by (rule bit_word_eqI) (auto simp: bit_simps dest: bit_imp_le_length)

lemma u16_of_bytes_lo_hi: "u16_of_bytes (u16_lo w) (u16_hi w) = w"
  unfolding u16_lo_def u16_hi_def u16_of_bytes_def
  by (rule bit_word_eqI) (auto simp: bit_simps)

lemma razer_get_device_Some:
  "razer_get_device ds did = Some i \<Longrightarrow>
   i < length ds \<and> dev_id (ds ! i) = did \<and> (\<forall>j<i. dev_id (ds ! j) \<noteq> did)"
proof (induction ds arbitrary: i)
  case Nil
  then show ?case by simp
next
  case (Cons d ds)
  show ?case
  proof (cases "dev_id d = did")
    case True
    with Cons.prems show ?thesis by simp
  next
    case False
    with Cons.prems obtain i' where i': "razer_get_device ds did = Some i'" "i = Suc i'"
      by auto
    from Cons.IH [OF i'(1)] False i'(2) show ?thesis
      by (auto simp: nth_Cons split: nat.splits)
  qed
qed

lemma razer_get_device_None: "razer_get_device ds did = None \<longleftrightarrow> did \<notin> dev_id ` set ds"
  by (induction ds) auto

lemma razer_get_device_ids:
  "map dev_id ds = map dev_id ds' \<Longrightarrow> razer_get_device ds did = razer_get_device ds' did"
proof (induction ds arbitrary: ds')
  case Nil
  then show ?case by simp
next
  case (Cons d ds)
  then obtain d' rest where "ds' = d' # rest" by (cases ds') auto
  with Cons show ?case by auto
qed

lemma razer_get_device_update:
  "i < length ds \<Longrightarrow> dev_id d = dev_id (ds ! i) \<Longrightarrow>
   razer_get_device (ds[i := d]) did = razer_get_device ds did"
  by (rule razer_get_device_ids) (simp add: map_update list_update_same_conv)

lemma razer_get_device_list_del:
  assumes "distinct (map dev_id ds)" and "razer_get_device ds did = Some i"
  shows "razer_get_device (list_del i ds) did = None"
proof -
  from razer_get_device_Some [OF assms(2)]
  have i: "i < length ds" and did: "dev_id (ds ! i) = did" by simp_all
  have ds: "ds = take i ds @ ds ! i # drop (Suc i) ds"
    using i by (simp add: id_take_nth_drop)
  have "distinct (map dev_id (take i ds @ ds ! i # drop (Suc i) ds))"
    using assms(1) ds by simp
  then have "did \<notin> dev_id ` set (take i ds)" and "did \<notin> dev_id ` set (drop (Suc i) ds)"
    using did by auto
  then show ?thesis
    by (simp add: razer_get_device_None list_del_def image_Un)
qed

lemma free_loop_eq: "free_loop i len live = live - (len - i)"
proof (induction i len live rule: free_loop.induct)
  case (1 i len live)
  show ?case
  proof (cases "i < len")
    case True
    with 1 show ?thesis by (subst free_loop.simps) simp
  next
    case False
    then show ?thesis by (subst free_loop.simps) simp
  qed
qed

lemma razer_free_translations_eq:
  "razer_free_translations it live = live - (length (dev_translations it) + 1)"
  by (simp add: razer_free_translations_def free_loop_eq)

lemma alloc_loop_eq:
  "alloc_loop i len ts live = (ts @ replicate (len - i) zeroed_key_translation, live + (len - i))"
proof (induction i len ts live rule: alloc_loop.induct)
  case (1 i len ts live)
  show ?case
  proof (cases "i < len")
    case True
    then have "len - i = Suc (len - (i + 1))" by simp
    with True 1 show ?thesis
      by (subst alloc_loop.simps) (simp add: replicate_app_Cons_same)
  next
    case False
    then show ?thesis by (subst alloc_loop.simps) simp
  qed
qed

lemma razer_alloc_translations_eq:
  "razer_alloc_translations it len live =
   (it\<lparr>dev_translations := replicate len zeroed_key_translation\<rparr>, live + 1 + len)"
  by (simp add: razer_alloc_translations_def alloc_loop_eq)


lemma set_loop_eq:
  "offset \<le> n \<Longrightarrow> length ts = n \<Longrightarrow>
   set_loop buf 4 n offset ts = take offset ts @ map (binding_at buf) [offset..<n]"
proof (induction buf "4::nat" n offset ts rule: set_loop.induct)
  case (1 buf n offset ts)
  show ?case
  proof (cases "offset < n")
    case False
    with "1.prems" show ?thesis by (subst set_loop.simps) simp
  next
    case True
    let ?e = "(memcpy_to_entry (ts ! offset) buf (offset * 4))\<lparr>tr_flags := 0\<rparr>"
    have e: "?e = binding_at buf offset"
      by (simp add: memcpy_to_entry_def binding_at_def mult.commute)
    have "set_loop buf 4 n offset ts = set_loop buf 4 n (offset + 1) (ts[offset := ?e])"
      using True by (subst set_loop.simps) simp
    also have "\<dots> = take (offset + 1) (ts[offset := ?e]) @ map (binding_at buf) [offset + 1..<n]"
      using "1.hyps" [OF True] True "1.prems" by simp
    also have "take (offset + 1) (ts[offset := ?e]) = take offset ts @ [binding_at buf offset]"
      using True "1.prems" e by (simp add: take_Suc_conv_app_nth)
    finally show ?thesis using True by (simp add: upt_conv_Cons)
  qed
qed

lemma get_loop_size: "fst (get_loop ts b offset buf sz) = sz + b * (length ts - offset)"
proof (induction ts b offset buf sz rule: get_loop.induct)
  case (1 ts b offset buf sz)
  show ?case
  proof (cases "offset < length ts")
    case True
    then have "length ts - offset = Suc (length ts - (offset + 1))" by simp
    with True 1 show ?thesis by (subst get_loop.simps) simp
  next
    case False
    then show ?thesis by (subst get_loop.simps) simp
  qed
qed

lemma memcpy_from_entry_at:
  "memcpy_from_entry buf (4 * k) t p =
   (if 4 * k \<le> p \<and> p < 4 * k + 4 then entry_bytes t ! (p - 4 * k) else buf p)"
proof -
  consider "p = 4 * k" | "p = 4 * k + 1" | "p = 4 * k + 2" | "p = 4 * k + 3"
    | "p < 4 * k \<or> 4 * k + 4 \<le> p" by arith
  then show ?thesis
    by cases (auto simp: memcpy_from_entry_def entry_bytes_def)
qed

lemma get_loop_buf:
  "snd (get_loop ts 4 offset buf sz) p =
   (if 4 * offset \<le> p \<and> p < 4 * length ts then entry_bytes (ts ! (p div 4)) ! (p mod 4)
    else buf p)"
proof (induction ts "4::nat" offset buf sz rule: get_loop.induct)
  case (1 ts offset buf sz)
  show ?case
  proof (cases "offset < length ts")
    case False
    then have n: "\<not> (4 * offset \<le> p \<and> p < 4 * length ts)" by arith
    have g: "get_loop ts 4 offset buf sz = (sz, buf)"
      using False by (subst get_loop.simps) simp
    show ?thesis unfolding g snd_conv using n by (rule if_not_P [symmetric])
  next
    case True
    let ?buf1 = "memcpy_from_entry buf (offset * 4) (ts ! offset)"
    have step: "snd (get_loop ts 4 offset buf sz) p = snd (get_loop ts 4 (offset + 1) ?buf1 (sz + 4)) p"
      using True by (subst get_loop.simps) simp
    have buf1: "?buf1 p = (if 4 * offset \<le> p \<and> p < 4 * offset + 4
        then entry_bytes (ts ! offset) ! (p - 4 * offset) else buf p)"
      using memcpy_from_entry_at [of buf offset "ts ! offset" p] by (simp add: mult.commute)
    show ?thesis
    proof (cases "4 * offset \<le> p \<and> p < 4 * offset + 4")
      case here: True
      then have "p div 4 = offset" and "p mod 4 = p - 4 * offset" by arith+
      with here True step "1.hyps" [OF True] buf1 show ?thesis by simp
    next
      case False
      with True step "1.hyps" [OF True] buf1 show ?thesis by auto
    qed
  qed
qed

lemma entry_bytes_binding_at:
  "entry_bytes (binding_at buf k) = [buf ! (4 * k), buf ! (4 * k + 1), buf ! (4 * k + 2), buf ! (4 * k + 3)]"
  by (simp add: entry_bytes_def binding_at_def u16_lo_of_bytes u16_hi_of_bytes)

lemma entry_bytes_binding_at_nth:
  "entry_bytes (binding_at buf (p div 4)) ! (p mod 4) = buf ! p"
proof -
  have p: "p = 4 * (p div 4) + p mod 4" by simp
  consider "p mod 4 = 0" | "p mod 4 = 1" | "p mod 4 = 2" | "p mod 4 = 3" by arith
  then show ?thesis
  proof cases
    case 1 then show ?thesis using p by (simp add: entry_bytes_binding_at)
  next
    case 2 then show ?thesis using p by (simp add: entry_bytes_binding_at)
  next
    case 3 then show ?thesis using p by (simp add: entry_bytes_binding_at)
  next
    case 4 then show ?thesis using p by (simp add: entry_bytes_binding_at)
  qed
qed


lemma razer_set_translations_odd:
  assumes "odd (length buf)" and "length buf \<noteq> 1 \<or> razer_get_device (devices st) did = None"
  shows "razer_set_translations st did buf = Some (2, st)"
proof -
  from assms(1) have "length buf mod 2 \<noteq> 0" by presburger
  with assms(2) show ?thesis
    by (auto simp: razer_set_translations_def Let_def)
qed

lemma razer_set_translations_delete:
  assumes "length buf = 1" and "razer_get_device (devices st) did = Some it"
  shows "razer_set_translations st did buf =
         Some (1, \<lparr>devices = list_del it (devices st),
                   live_blocks = live_blocks st - (length (dev_translations (devices st ! it)) + 2)\<rparr>)"
  using assms by (simp add: razer_set_translations_def razer_free_translations_eq)

lemma razer_set_translations_new:
  assumes "even (length buf)" and "razer_get_device (devices st) did = None"
  shows "razer_set_translations st did buf =
         Some (0, \<lparr>devices = \<lparr>dev_id = did,
                                dev_translations = map (binding_at buf) [0..<length buf div 4]\<rparr>
                              # devices st,
                   live_blocks = live_blocks st + 2 + length buf div 4\<rparr>)"
proof -
  from assms(1) have m: "length buf mod 2 = 0" and n1: "length buf \<noteq> 1" by auto
  show ?thesis
    using assms(2) m n1
    by (simp add: razer_set_translations_def Let_def razer_alloc_translations_eq set_loop_eq)
qed

lemma razer_set_translations_rebind:
  assumes "even (length buf)" and "razer_get_device (devices st) did = Some it"
  shows "razer_set_translations st did buf =
         Some (0, \<lparr>devices = (devices st)
                     [it := (devices st ! it)
                        \<lparr>dev_translations := map (binding_at buf) [0..<length buf div 4]\<rparr>],
                   live_blocks =
                     (if length (dev_translations (devices st ! it)) \<noteq> length buf div 4
                      then live_blocks st - (length (dev_translations (devices st ! it)) + 1)
                             + 1 + length buf div 4
                      else live_blocks st)\<rparr>)"
proof -
  from assms(1) have m: "length buf mod 2 = 0" and n1: "length buf \<noteq> 1" by auto
  from razer_get_device_Some [OF assms(2)] have it: "it < length (devices st)" by simp
  show ?thesis
  proof (cases "length (dev_translations (devices st ! it)) = length buf div 4")
    case True
    then show ?thesis
      using assms(2) m n1 it
      by (simp add: razer_set_translations_def Let_def set_loop_eq)
  next
    case False
    then show ?thesis
      using assms(2) m n1 it
      by (simp add: razer_set_translations_def Let_def razer_alloc_translations_eq
          razer_free_translations_eq set_loop_eq)
  qed
qed


lemma translation_loop_Some:
  "translation_loop ts key i = Some j \<longleftrightarrow>
   i \<le> j \<and> j < length ts \<and> tr_from (ts ! j) = key \<and>
   (\<forall>k. i \<le> k \<and> k < j \<longrightarrow> tr_from (ts ! k) \<noteq> key)"
proof (induction ts key i rule: translation_loop.induct)
  case (1 ts key i)
  show ?case
  proof (cases "i < length ts")
    case False
    then show ?thesis by (subst translation_loop.simps) auto
  next
    case True
    show ?thesis
    proof (cases "tr_from (ts ! i) = key")
      case hit: True
      have "translation_loop ts key i = Some i"
        using True hit by (subst translation_loop.simps) simp
      moreover have "i = j \<longleftrightarrow> i \<le> j \<and> j < length ts \<and> tr_from (ts ! j) = key \<and>
          (\<forall>k. i \<le> k \<and> k < j \<longrightarrow> tr_from (ts ! k) \<noteq> key)"
        using True hit by (auto simp: le_less)
      ultimately show ?thesis by auto
    next
      case miss: False
      have "translation_loop ts key i = translation_loop ts key (i + 1)"
        using True miss by (subst translation_loop.simps) simp
      moreover have "(i + 1 \<le> j \<and> j < length ts \<and> tr_from (ts ! j) = key \<and>
          (\<forall>k. i + 1 \<le> k \<and> k < j \<longrightarrow> tr_from (ts ! k) \<noteq> key)) \<longleftrightarrow>
          (i \<le> j \<and> j < length ts \<and> tr_from (ts ! j) = key \<and>
          (\<forall>k. i \<le> k \<and> k < j \<longrightarrow> tr_from (ts ! k) \<noteq> key))"
        using miss by (metis Suc_eq_plus1 Suc_leI Suc_leD not_less_eq_eq order.strict_iff_order)
      ultimately show ?thesis using "1.IH" [OF True miss] by simp
    qed
  qed
qed

lemma translation_loop_None:
  "translation_loop ts key i = None \<longleftrightarrow>
   (\<forall>k. i \<le> k \<and> k < length ts \<longrightarrow> tr_from (ts ! k) \<noteq> key)"
proof -
  have "translation_loop ts key i = None \<longleftrightarrow> (\<forall>j. translation_loop ts key i \<noteq> Some j)"
    by auto
  also have "\<dots> \<longleftrightarrow> (\<forall>j. \<not> (i \<le> j \<and> j < length ts \<and> tr_from (ts ! j) = key \<and>
      (\<forall>k. i \<le> k \<and> k < j \<longrightarrow> tr_from (ts ! k) \<noteq> key)))"
    by (simp only: translation_loop_Some)
  also have "\<dots> \<longleftrightarrow> (\<forall>k. i \<le> k \<and> k < length ts \<longrightarrow> tr_from (ts ! k) \<noteq> key)"
  proof
    assume none: "\<forall>j. \<not> (i \<le> j \<and> j < length ts \<and> tr_from (ts ! j) = key \<and>
      (\<forall>k. i \<le> k \<and> k < j \<longrightarrow> tr_from (ts ! k) \<noteq> key))"
    show "\<forall>k. i \<le> k \<and> k < length ts \<longrightarrow> tr_from (ts ! k) \<noteq> key"
    proof (intro allI impI)
      fix k assume "i \<le> k \<and> k < length ts"
      then show "tr_from (ts ! k) \<noteq> key"
      proof (induction k rule: less_induct)
        case (less k)
        show ?case
        proof
          assume hit: "tr_from (ts ! k) = key"
          from less.IH less.prems have "\<forall>m. i \<le> m \<and> m < k \<longrightarrow> tr_from (ts ! m) \<noteq> key"
            by auto
          with none less.prems hit show False by blast
        qed
      qed
    qed
  qed auto
  finally show ?thesis .
qed


text \<open>
  Claim C7. \<open>razer_get_translation\<close> returns position \<open>j\<close> exactly when the device has a
  set, entry \<open>j\<close> of it has \<^verbatim>\<open>from\<close> equal to the key and no earlier entry has: the first
  match in stored order, also among entries that share the key. It returns nothing exactly
  when the device has no set or no entry of its set has that \<^verbatim>\<open>from\<close>.
\<close>

theorem razer_get_translation_first_match:
  "(razer_get_translation st did key = Some j \<longleftrightarrow>
      (\<exists>d. razer_get_device (devices st) did = Some d \<and>
           j < length (dev_translations (devices st ! d)) \<and>
           tr_from (dev_translations (devices st ! d) ! j) = key \<and>
           (\<forall>k<j. tr_from (dev_translations (devices st ! d) ! k) \<noteq> key))) \<and>
   (razer_get_translation st did key = None \<longleftrightarrow>
      did \<notin> dev_id ` set (devices st) \<or>
      (\<exists>d. razer_get_device (devices st) did = Some d \<and>
           key \<notin> tr_from ` set (dev_translations (devices st ! d))))"
proof (cases "razer_get_device (devices st) did")
  case None
  then have "did \<notin> dev_id ` set (devices st)"
    using razer_get_device_None [of "devices st" did] by simp
  with None show ?thesis
    by (simp add: razer_get_translation_def)
next
  case (Some d)
  then have bound: "did \<in> dev_id ` set (devices st)"
    using razer_get_device_None [of "devices st" did] by simp
  let ?ts = "dev_translations (devices st ! d)"
  have "key \<notin> tr_from ` set ?ts \<longleftrightarrow> (\<forall>k. 0 \<le> k \<and> k < length ?ts \<longrightarrow> tr_from (?ts ! k) \<noteq> key)"
  proof
    assume "key \<notin> tr_from ` set ?ts"
    then show "\<forall>k. 0 \<le> k \<and> k < length ?ts \<longrightarrow> tr_from (?ts ! k) \<noteq> key"
      using nth_mem [of _ ?ts] by blast
  next
    assume "\<forall>k. 0 \<le> k \<and> k < length ?ts \<longrightarrow> tr_from (?ts ! k) \<noteq> key"
    then show "key \<notin> tr_from ` set ?ts"
      by (auto simp: in_set_conv_nth)
  qed
  with Some bound show ?thesis
    by (simp add: razer_get_translation_def translation_loop_Some translation_loop_None)
qed

theorem razer_get_translation_first_match_witness:
  "razer_get_translation duplicate_registry 7 2 = Some 0 \<and>
   tr_to (dev_translations (devices duplicate_registry ! 0) ! 0) = 0x1E \<and>
   razer_get_translation duplicate_registry 7 99 = None \<and>
   razer_get_translation duplicate_registry 8 2 = None"
proof -
  note t = razer_get_translation_first_match [of duplicate_registry]
  have "\<exists>d. razer_get_device (devices duplicate_registry) 7 = Some d \<and>
           0 < length (dev_translations (devices duplicate_registry ! d)) \<and>
           tr_from (dev_translations (devices duplicate_registry ! d) ! 0) = 2 \<and>
           (\<forall>k<0. tr_from (dev_translations (devices duplicate_registry ! d) ! k) \<noteq> 2)"
    by (simp add: duplicate_registry_def)
  with t [of 7 2 0] have a: "razer_get_translation duplicate_registry 7 2 = Some 0" by blast
  have "\<exists>d. razer_get_device (devices duplicate_registry) 7 = Some d \<and>
           99 \<notin> tr_from ` set (dev_translations (devices duplicate_registry ! d))"
    by (simp add: duplicate_registry_def)
  with t [of 7 99] have b: "razer_get_translation duplicate_registry 7 99 = None" by blast
  have "8 \<notin> dev_id ` set (devices duplicate_registry)"
    by (simp add: duplicate_registry_def)
  with t [of 8 2] have c: "razer_get_translation duplicate_registry 8 2 = None" by blast
  have d: "tr_to (dev_translations (devices duplicate_registry ! 0) ! 0) = 0x1E"
    by (simp add: duplicate_registry_def)
  from a b c d show ?thesis by blast
qed

text \<open>
  Claim C6. For an id with no set in the registry, \<open>razer_get_translations\<close> returns 1 and
  writes one byte, a zero at offset 0. This is the case right after a write of one byte for
  that id, in every registry that holds no id twice (as every registry built by
  \<open>razer_set_translations\<close> does): the write either removed the set or found none.
\<close>

theorem razer_get_translations_unbound:
  "(razer_get_device (devices st) did = None \<longrightarrow>
      razer_get_translations st did out = (1, out(0 := 0))) \<and>
   (distinct (map dev_id (devices st)) \<and> length buf = 1 \<longrightarrow>
      (\<exists>r st'. razer_set_translations st did buf = Some (r, st') \<and>
               razer_get_translations st' did out = (1, out(0 := 0))))"
proof (intro conjI impI)
  show "razer_get_translations st did out = (1, out(0 := 0))"
    if "razer_get_device (devices st) did = None"
    using that by (simp add: razer_get_translations_def)
next
  assume h: "distinct (map dev_id (devices st)) \<and> length buf = 1"
  show "\<exists>r st'. razer_set_translations st did buf = Some (r, st') \<and>
               razer_get_translations st' did out = (1, out(0 := 0))"
  proof (cases "razer_get_device (devices st) did")
    case None
    with h have "razer_set_translations st did buf = Some (2, st)"
      by (simp add: razer_set_translations_odd)
    with None show ?thesis by (simp add: razer_get_translations_def)
  next
    case (Some it)
    with h have "razer_get_device (list_del it (devices st)) did = None"
      by (simp add: razer_get_device_list_del)
    with h Some show ?thesis
      by (simp add: razer_set_translations_delete razer_get_translations_def)
  qed
qed

theorem razer_get_translations_unbound_witness:
  "razer_get_device (devices fresh_registry) 7 = None \<and>
   razer_get_translations fresh_registry 7 (\<lambda>p. 0xAA) = (1, (\<lambda>p. 0xAA)(0 := 0)) \<and>
   distinct (map dev_id (devices bound_registry)) \<and> length [0 :: u8] = 1 \<and>
   razer_set_translations bound_registry 7 [0] = Some (1, fresh_registry) \<and>
   razer_get_translations fresh_registry 7 (\<lambda>p. 0xAA) = (1, (\<lambda>p. 0xAA)(0 := 0))"
proof -
  have absent: "razer_get_device (devices fresh_registry) 7 = None"
    by (simp add: fresh_registry_def razer_init_translations_def)
  have pre: "distinct (map dev_id (devices bound_registry)) \<and> length [0 :: u8] = 1"
    by (simp add: bound_registry_def)
  have del: "razer_set_translations bound_registry 7 [0] = Some (1, fresh_registry)"
    by (simp add: razer_set_translations_delete bound_registry_def fresh_registry_def
        razer_init_translations_def list_del_def)
  from razer_get_translations_unbound [of fresh_registry 7 "\<lambda>p. 0xAA"] absent
  have a: "razer_get_translations fresh_registry 7 (\<lambda>p. 0xAA) = (1, (\<lambda>p. 0xAA)(0 := 0))"
    by blast
  from razer_get_translations_unbound [of bound_registry 7 "\<lambda>p. 0xAA" "[0]"] pre
  have "\<exists>r st'. razer_set_translations bound_registry 7 [0] = Some (r, st') \<and>
               razer_get_translations st' 7 (\<lambda>p. 0xAA) = (1, (\<lambda>p. 0xAA)(0 := 0))"
    by blast
  with del have "razer_get_translations fresh_registry 7 (\<lambda>p. 0xAA) = (1, (\<lambda>p. 0xAA)(0 := 0))"
    by simp
  with absent pre del a show ?thesis by blast
qed

text \<open>
  Claim C1, at inputs where the code departs from it. On an empty registry a buffer of two
  bytes is accepted: the result is 0 and device 7 is bound to a set without entries. A
  buffer of six bytes is accepted as well: the result is 0 and its first four bytes become
  the one entry of device 7.
\<close>

theorem razer_set_translations_accepts_even_length:
  "razer_set_translations fresh_registry 7 [0x02, 0x00] =
     Some (0, \<lparr>devices = [\<lparr>dev_id = 7, dev_translations = []\<rparr>], live_blocks = 2\<rparr>) \<and>
   razer_set_translations fresh_registry 7 [0x02, 0x00, 0x1E, 0x00, 0x03, 0x00] =
     Some (0, \<lparr>devices = [\<lparr>dev_id = 7,
                dev_translations = [\<lparr>tr_from = 2, tr_to = 0x1E, tr_flags = 0\<rparr>]\<rparr>],
               live_blocks = 3\<rparr>)"
  by (simp add: razer_set_translations_new fresh_registry_def razer_init_translations_def
      binding_at_def u16_of_bytes_def)

text \<open>
  Claim C2 as stated fails where no set exists: a one-byte write for device 7 to the empty
  registry returns 2, not 1, and changes nothing.
\<close>

theorem razer_set_translations_delete_absent:
  "razer_get_device (devices fresh_registry) 7 = None \<and>
   razer_set_translations fresh_registry 7 [0x00] = Some (2, fresh_registry)"
  by (simp add: razer_set_translations_odd fresh_registry_def razer_init_translations_def)

text \<open>
  Claim C2, amended. A write of exactly one byte, whatever its value: if a set exists for
  the id, the result is 1, the set is unlinked from the list and its entries, their array and
  the set itself are freed (as many blocks fewer are live as the set had entries, plus two),
  and in a registry that holds no id twice the id is unbound afterwards; if no set exists,
  the result is 2 and the registry is unchanged.
\<close>

theorem razer_set_translations_one_byte:
  assumes "length buf = 1"
  shows "(\<forall>it. razer_get_device (devices st) did = Some it \<longrightarrow>
            razer_set_translations st did buf =
              Some (1, \<lparr>devices = list_del it (devices st),
                        live_blocks = live_blocks st -
                          (length (dev_translations (devices st ! it)) + 2)\<rparr>) \<and>
            (distinct (map dev_id (devices st)) \<longrightarrow>
               razer_get_device (list_del it (devices st)) did = None)) \<and>
         (razer_get_device (devices st) did = None \<longrightarrow>
            razer_set_translations st did buf = Some (2, st))"
  using assms
  by (simp add: razer_set_translations_delete razer_set_translations_odd
      razer_get_device_list_del)

theorem razer_set_translations_one_byte_witness:
  "length [0x55 :: u8] = 1 \<and> razer_get_device (devices bound_registry) 7 = Some 0 \<and>
   razer_set_translations bound_registry 7 [0x55] = Some (1, \<lparr>devices = [], live_blocks = 0\<rparr>) \<and>
   razer_get_device (devices bound_registry) 8 = None \<and>
   razer_set_translations bound_registry 8 [0x55] = Some (2, bound_registry)"
proof -
  have len: "length [0x55 :: u8] = 1" by simp
  have there: "razer_get_device (devices bound_registry) 7 = Some 0"
    by (simp add: bound_registry_def)
  have absent: "razer_get_device (devices bound_registry) 8 = None"
    by (simp add: bound_registry_def)
  from razer_set_translations_one_byte [OF len, of bound_registry 7] there
  have "razer_set_translations bound_registry 7 [0x55] =
      Some (1, \<lparr>devices = list_del 0 (devices bound_registry),
                live_blocks = live_blocks bound_registry -
                  (length (dev_translations (devices bound_registry ! 0)) + 2)\<rparr>)"
    by blast
  then have a: "razer_set_translations bound_registry 7 [0x55] =
      Some (1, \<lparr>devices = [], live_blocks = 0\<rparr>)"
    by (simp add: bound_registry_def list_del_def)
  from razer_set_translations_one_byte [OF len, of bound_registry 8] absent
  have b: "razer_set_translations bound_registry 8 [0x55] = Some (2, bound_registry)"
    by blast
  from len there a absent b show ?thesis by blast
qed


lemma set_list_del: "set (list_del i xs) \<subseteq> set xs"
  unfolding list_del_def using set_take_subset [of i xs] set_drop_subset [of "Suc i" xs]
  by auto

lemma distinct_list_del: "distinct (map f xs) \<Longrightarrow> distinct (map f (list_del i xs))"
proof -
  assume d: "distinct (map f xs)"
  have "map f (list_del i xs) = take i (map f xs) @ drop (Suc i) (map f xs)"
    by (simp add: list_del_def take_map drop_map)
  moreover have "set (take i (map f xs)) \<inter> set (drop (Suc i) (map f xs)) = {}"
    using d set_take_disj_set_drop_if_distinct [of "map f xs" i "Suc i"] by simp
  ultimately show ?thesis using d by simp
qed

text \<open>What one write does to a registry, case by case.\<close>

lemma razer_set_translations_cases:
  obtains (rejected) "odd (length buf)" "razer_set_translations st did buf = Some (2, st)"
  | (deleted) it where "length buf = 1" "razer_get_device (devices st) did = Some it"
      "razer_set_translations st did buf =
         Some (1, \<lparr>devices = list_del it (devices st),
                   live_blocks = live_blocks st - (length (dev_translations (devices st ! it)) + 2)\<rparr>)"
  | (created) "even (length buf)" "razer_get_device (devices st) did = None"
      "razer_set_translations st did buf =
         Some (0, \<lparr>devices = \<lparr>dev_id = did,
                                dev_translations = map (binding_at buf) [0..<length buf div 4]\<rparr>
                              # devices st,
                   live_blocks = live_blocks st + 2 + length buf div 4\<rparr>)"
  | (rebound) it where "even (length buf)" "razer_get_device (devices st) did = Some it"
      "razer_set_translations st did buf =
         Some (0, \<lparr>devices = (devices st)
                     [it := (devices st ! it)
                        \<lparr>dev_translations := map (binding_at buf) [0..<length buf div 4]\<rparr>],
                   live_blocks =
                     (if length (dev_translations (devices st ! it)) \<noteq> length buf div 4
                      then live_blocks st - (length (dev_translations (devices st ! it)) + 1)
                             + 1 + length buf div 4
                      else live_blocks st)\<rparr>)"
proof (cases "even (length buf)")
  case True
  show ?thesis
  proof (cases "razer_get_device (devices st) did")
    case None
    from True None razer_set_translations_new [OF True None] show ?thesis by (rule created)
  next
    case (Some it)
    from True Some razer_set_translations_rebind [OF True Some] show ?thesis by (rule rebound)
  qed
next
  case False
  show ?thesis
  proof (cases "length buf = 1 \<and> razer_get_device (devices st) did \<noteq> None")
    case True
    then obtain it where it: "razer_get_device (devices st) did = Some it" by auto
    from True have one: "length buf = 1" by simp
    from one it razer_set_translations_delete [OF one it] show ?thesis by (rule deleted)
  next
    case no: False
    then have "length buf \<noteq> 1 \<or> razer_get_device (devices st) did = None" by auto
    with False have "razer_set_translations st did buf = Some (2, st)"
      by (simp add: razer_set_translations_odd)
    with False show ?thesis by (rule rejected)
  qed
qed

lemma razer_set_translations_distinct:
  assumes "distinct (map dev_id (devices st))"
    and "razer_set_translations st did buf = Some (r, st')"
  shows "distinct (map dev_id (devices st'))"
proof (cases rule: razer_set_translations_cases [of buf st did])
  case rejected
  with assms show ?thesis by simp
next
  case (deleted it)
  with assms show ?thesis by (auto simp: distinct_list_del)
next
  case created
  with assms show ?thesis by (auto simp: razer_get_device_None)
next
  case (rebound it)
  from razer_get_device_Some [OF rebound(2)] have "it < length (devices st)" by simp
  then have "map dev_id ((devices st)
      [it := (devices st ! it)\<lparr>dev_translations := map (binding_at buf) [0..<length buf div 4]\<rparr>])
      = map dev_id (devices st)"
    by (simp add: map_update list_update_same_conv)
  with rebound assms show ?thesis by auto
qed

lemma set_all_distinct:
  "distinct (map dev_id (devices st)) \<Longrightarrow> set_all st calls = Some st' \<Longrightarrow>
   distinct (map dev_id (devices st'))"
proof (induction calls arbitrary: st)
  case Nil
  then show ?case by simp
next
  case (Cons c calls)
  obtain did buf where c: "c = (did, buf)" by (cases c)
  from Cons.prems(2) c obtain r st1 where
    step: "razer_set_translations st did buf = Some (r, st1)" and rest: "set_all st1 calls = Some st'"
    by (auto split: option.splits)
  from razer_set_translations_distinct [OF Cons.prems(1) step] rest show ?case
    by (rule Cons.IH)
qed

lemma razer_set_translations_nonempty:
  assumes inv: "\<forall>d \<in> set (devices st). dev_translations d \<noteq> []"
    and len: "length buf \<noteq> 0" "length buf \<noteq> 2"
  shows "\<exists>r st'. razer_set_translations st did buf = Some (r, st') \<and>
           (\<forall>d \<in> set (devices st'). dev_translations d \<noteq> [])"
proof (cases rule: razer_set_translations_cases [of buf st did])
  case rejected
  with inv show ?thesis by simp
next
  case (deleted it)
  with inv set_list_del [of it "devices st"] show ?thesis by auto
next
  case created
  from created(1) len have "0 < length buf div 4" by presburger
  with created inv show ?thesis by auto
next
  case (rebound it)
  from rebound(1) len have n: "0 < length buf div 4" by presburger
  let ?e = "(devices st ! it)\<lparr>dev_translations := map (binding_at buf) [0..<length buf div 4]\<rparr>"
  have "dev_translations d \<noteq> []" if "d \<in> set ((devices st)[it := ?e])" for d
  proof -
    from that set_update_subset_insert [of "devices st" it ?e]
    have "d = ?e \<or> d \<in> set (devices st)" by blast
    with inv n show ?thesis by auto
  qed
  with rebound(3) show ?thesis by simp
qed

lemma set_all_nonempty:
  assumes "\<forall>d \<in> set (devices st). dev_translations d \<noteq> []"
    and "\<forall>(did, buf) \<in> set calls. length buf \<noteq> 0 \<and> length buf \<noteq> 2"
  shows "\<exists>st'. set_all st calls = Some st' \<and> (\<forall>d \<in> set (devices st'). dev_translations d \<noteq> [])"
  using assms
proof (induction calls arbitrary: st)
  case Nil
  then show ?case by simp
next
  case (Cons c calls)
  obtain did buf where c: "c = (did, buf)" by (cases c)
  with Cons.prems(2) have len: "length buf \<noteq> 0" "length buf \<noteq> 2"
    and rest: "\<forall>(did, buf) \<in> set calls. length buf \<noteq> 0 \<and> length buf \<noteq> 2"
    by auto
  from razer_set_translations_nonempty [OF Cons.prems(1) len, of did]
  obtain r st1 where step: "razer_set_translations st did buf = Some (r, st1)"
    and inv1: "\<forall>d \<in> set (devices st1). dev_translations d \<noteq> []" by blast
  from Cons.IH [OF inv1 rest] step c show ?case by simp
qed

text \<open>
  Claim C3 as stated fails: an empty write for device 7 to a freshly initialised registry is
  accepted and leaves device 7 bound to a set with no entries.
\<close>

theorem set_all_retains_empty_set:
  "set_all fresh_registry [(7, [])] =
     Some \<lparr>devices = [\<lparr>dev_id = 7, dev_translations = []\<rparr>], live_blocks = 2\<rparr>"
  by (simp add: razer_set_translations_new fresh_registry_def razer_init_translations_def)

text \<open>
  Claim C3, amended. After any sequence of \<open>razer_set_translations\<close> calls on an initialised
  empty registry in which no buffer has length 0 or 2, every call returns and no set in the
  registry has 0 entries. (The code has no step that removes a set because it is empty.)
\<close>

theorem set_all_no_empty_set:
  assumes "\<forall>(did, buf) \<in> set calls. length buf \<noteq> 0 \<and> length buf \<noteq> 2"
  shows "\<exists>st. set_all (razer_init_translations st0) calls = Some st \<and>
              (\<forall>d \<in> set (devices st). dev_translations d \<noteq> [])"
proof -
  have "\<forall>d \<in> set (devices (razer_init_translations st0)). dev_translations d \<noteq> []"
    by (simp add: razer_init_translations_def)
  from set_all_nonempty [OF this assms] show ?thesis .
qed

theorem set_all_no_empty_set_witness:
  "set_all fresh_registry example_calls =
     Some \<lparr>devices = [\<lparr>dev_id = 8,
                    dev_translations = [\<lparr>tr_from = 0x0201, tr_to = 0x0403, tr_flags = 0\<rparr>,
                                        \<lparr>tr_from = 0x0605, tr_to = 0x0807, tr_flags = 0\<rparr>]\<rparr>],
           live_blocks = 4\<rparr> \<and>
   (\<exists>st. set_all fresh_registry example_calls = Some st \<and>
         list_all (\<lambda>d. dev_translations d \<noteq> []) (devices st))"
proof
  show "set_all fresh_registry example_calls =
     Some \<lparr>devices = [\<lparr>dev_id = 8,
                    dev_translations = [\<lparr>tr_from = 0x0201, tr_to = 0x0403, tr_flags = 0\<rparr>,
                                        \<lparr>tr_from = 0x0605, tr_to = 0x0807, tr_flags = 0\<rparr>]\<rparr>],
           live_blocks = 4\<rparr>"
    by code_simp
  have pre: "\<forall>(did, buf) \<in> set example_calls. length buf \<noteq> 0 \<and> length buf \<noteq> 2"
    by (simp add: example_calls_def)
  from set_all_no_empty_set [OF pre, of "\<lparr>devices = [], live_blocks = 0\<rparr>"]
  show "\<exists>st. set_all fresh_registry example_calls = Some st \<and>
         list_all (\<lambda>d. dev_translations d \<noteq> []) (devices st)"
    unfolding fresh_registry_def list_all_iff .
qed

lemma razer_get_translations_bindings:
  assumes "razer_get_device (devices st) did = Some it"
    and "dev_translations (devices st ! it) = map (binding_at buf) [0..<n]"
    and "length buf = 4 * n"
  shows "fst (razer_get_translations st did out) = 4 * n"
    and "map (snd (razer_get_translations st did out)) [0..<4 * n] = buf"
    and "4 * n \<le> p \<Longrightarrow> snd (razer_get_translations st did out) p = out p"
proof -
  let ?ts = "map (binding_at buf) [0..<n]"
  have get: "razer_get_translations st did out = get_loop ?ts 4 0 out 0"
    using assms(1,2) by (simp add: razer_get_translations_def)
  show "fst (razer_get_translations st did out) = 4 * n"
    unfolding get by (simp add: get_loop_size)
  have byte: "snd (get_loop ?ts 4 0 out 0) q = buf ! q" if "q < 4 * n" for q
  proof -
    from that have "q div 4 < n" by arith
    then have "?ts ! (q div 4) = binding_at buf (q div 4)" by simp
    with that show ?thesis
      by (simp add: get_loop_buf entry_bytes_binding_at_nth)
  qed
  show "map (snd (razer_get_translations st did out)) [0..<4 * n] = buf"
    unfolding get using assms(3) byte by (intro nth_equalityI) simp_all
  show "snd (razer_get_translations st did out) p = out p" if "4 * n \<le> p"
    unfolding get using that by (simp add: get_loop_buf)
qed

text \<open>
  Claim C5. For every \<open>n \<ge> 1\<close>, id and registry, \<open>razer_set_translations\<close> with a buffer of
  \<open>4 * n\<close> bytes returns 0 and leaves the id bound to exactly \<open>n\<close> entries, the k-th made of
  the k-th pair of the buffer with flags 0; a \<open>razer_get_translations\<close> for the id right
  after returns \<open>4 * n\<close> and has written the bytes of the buffer, in order, to the first
  \<open>4 * n\<close> offsets of its output, and nothing behind them.
\<close>

theorem razer_set_get_roundtrip:
  assumes "1 \<le> n" and "length buf = 4 * n"
  shows "\<exists>st' it. razer_set_translations st did buf = Some (0, st') \<and>
           razer_get_device (devices st') did = Some it \<and>
           dev_translations (devices st' ! it) = map (binding_at buf) [0..<n] \<and>
           (\<forall>out. fst (razer_get_translations st' did out) = 4 * n \<and>
                  map (snd (razer_get_translations st' did out)) [0..<4 * n] = buf \<and>
                  (\<forall>p\<ge>4 * n. snd (razer_get_translations st' did out) p = out p))"
proof -
  from assms(2) have ev: "even (length buf)" and n: "length buf div 4 = n" by simp_all
  obtain st' it where set: "razer_set_translations st did buf = Some (0, st')"
    and dev: "razer_get_device (devices st') did = Some it"
    and ts: "dev_translations (devices st' ! it) = map (binding_at buf) [0..<n]"
  proof (cases "razer_get_device (devices st) did")
    case None
    from razer_set_translations_new [OF ev None] n that [of _ 0] show ?thesis by simp
  next
    case (Some it)
    from razer_get_device_Some [OF Some] have it: "it < length (devices st)" by simp
    let ?e = "(devices st ! it)\<lparr>dev_translations := map (binding_at buf) [0..<n]\<rparr>"
    have "razer_get_device ((devices st)[it := ?e]) did = Some it"
      using it Some by (simp add: razer_get_device_update)
    with razer_set_translations_rebind [OF ev Some] n it that [of _ it] show ?thesis by simp
  qed
  from razer_get_translations_bindings [OF dev ts assms(2)] set dev ts show ?thesis by blast
qed

theorem razer_set_get_roundtrip_witness:
  "1 \<le> (2 :: nat) \<and> length [0x02, 0x00, 0x1E, 0x00, 0x03, 0x00, 0x30, 0x00 :: u8] = 4 * 2 \<and>
   (\<exists>st'. razer_set_translations bound_registry 7 [0x02, 0x00, 0x1E, 0x00, 0x03, 0x00, 0x30, 0x00]
            = Some (0, st') \<and>
          fst (razer_get_translations st' 7 (\<lambda>p. 0xAA)) = 8 \<and>
          map (snd (razer_get_translations st' 7 (\<lambda>p. 0xAA))) [0..<8]
            = [0x02, 0x00, 0x1E, 0x00, 0x03, 0x00, 0x30, 0x00])"
proof -
  let ?buf = "[0x02, 0x00, 0x1E, 0x00, 0x03, 0x00, 0x30, 0x00 :: u8]"
  have n: "1 \<le> (2 :: nat)" and len: "length ?buf = 4 * 2" by simp_all
  from razer_set_get_roundtrip [OF n len, of bound_registry 7]
  obtain st' where set: "razer_set_translations bound_registry 7 ?buf = Some (0, st')"
    and get: "\<forall>out. fst (razer_get_translations st' 7 out) = 4 * 2 \<and>
                  map (snd (razer_get_translations st' 7 out)) [0..<4 * 2] = ?buf \<and>
                  (\<forall>p\<ge>4 * 2. snd (razer_get_translations st' 7 out) p = out p)"
    by blast
  from get have "fst (razer_get_translations st' 7 (\<lambda>p. 0xAA)) = 4 * 2 \<and>
      map (snd (razer_get_translations st' 7 (\<lambda>p. 0xAA))) [0..<4 * 2] = ?buf" by blast
  then have g8: "fst (razer_get_translations st' 7 (\<lambda>p. 0xAA)) = 8 \<and>
      map (snd (razer_get_translations st' 7 (\<lambda>p. 0xAA))) [0..<8] = ?buf"
    by simp
  show ?thesis
  proof (intro conjI exI)
    show "1 \<le> (2 :: nat)" by (rule n)
    show "length ?buf = 4 * 2" by (rule len)
    show "razer_set_translations bound_registry 7 ?buf = Some (0, st')" by (rule set)
    show "fst (razer_get_translations st' 7 (\<lambda>p. 0xAA)) = 8" using g8 by (rule conjunct1)
    show "map (snd (razer_get_translations st' 7 (\<lambda>p. 0xAA))) [0..<8] = ?buf"
      using g8 by (rule conjunct2)
  qed
qed

end
